theory Spec2Isabelle
  imports Main "HOL-Library.Product_Lexorder"
begin

section \<open>Data model\<close>

text \<open>
  A cell is a pair \<open>(row, column)\<close> of Python integers. A Python \<open>set\<close> of cells is a
  HOL set; where the source iterates over a set, the iteration order is either given
  explicitly (\<open>make_safe_move\<close>, where the result depends on it) or fixed to the sorted
  order (the marking loops, whose result is shown not to depend on it).
\<close>

type_synonym cell = "int \<times> int"

text \<open>Class \<open>Sentence\<close>: a set of cells and the number of them that are mines.\<close>

record sentence =
  cells :: "cell set"
  count :: int

text \<open>
  Class \<open>Minesweeper\<close>, as far as \<open>nearby_mines\<close> reads it: \<open>board[i][j]\<close> is
  \<open>True\<close> exactly for the cells of \<open>board\<close>.
\<close>

record minesweeper =
  ms_height :: int
  ms_width :: int
  board :: "cell set"

text \<open>Class \<open>MinesweeperAI\<close>.\<close>

record ai =
  height :: int
  width :: int
  moves_made :: "cell set"
  mines :: "cell set"
  safes :: "cell set"
  knowledge :: "sentence list"

definition init_ai :: "int \<Rightarrow> int \<Rightarrow> ai" where
  "init_ai h w =
     \<lparr>height = h, width = w, moves_made = {}, mines = {}, safes = {}, knowledge = []\<rparr>"

text \<open>Python's \<open>range(n)\<close> and \<open>range(a, b)\<close> over integers.\<close>

definition range_py :: "int \<Rightarrow> int list" where
  "range_py n = [0 .. n - 1]"

definition range2_py :: "int \<Rightarrow> int \<Rightarrow> int list" where
  "range2_py a b = [a .. b - 1]"

section \<open>The game: \<open>Minesweeper.nearby_mines\<close>\<close>

definition nearby_mines :: "minesweeper \<Rightarrow> cell \<Rightarrow> int" where
  "nearby_mines g cell =
     int (length
       [(i, j) \<leftarrow> List.product (range2_py (fst cell - 1) (fst cell + 2))
                                 (range2_py (snd cell - 1) (snd cell + 2)).
          (i, j) \<noteq> cell \<and>
          0 \<le> i \<and> i < ms_height g \<and> 0 \<le> j \<and> j < ms_width g \<and> (i, j) \<in> board g])"

section \<open>Class \<open>Sentence\<close>\<close>

definition known_mines :: "sentence \<Rightarrow> cell set" where
  "known_mines s = (if int (card (cells s)) = count s then cells s else {})"

definition known_safes :: "sentence \<Rightarrow> cell set" where
  "known_safes s = (if count s = 0 then cells s else {})"

definition Sentence_mark_mine :: "cell \<Rightarrow> sentence \<Rightarrow> sentence" where
  "Sentence_mark_mine c s =
     (if c \<in> cells s then s\<lparr>cells := cells s - {c}, count := count s - 1\<rparr> else s)"

definition Sentence_mark_safe :: "cell \<Rightarrow> sentence \<Rightarrow> sentence" where
  "Sentence_mark_safe c s =
     (if c \<in> cells s then s\<lparr>cells := cells s - {c}\<rparr> else s)"

section \<open>Class \<open>MinesweeperAI\<close>\<close>

definition mark_mine :: "cell \<Rightarrow> ai \<Rightarrow> ai" where
  "mark_mine c st =
     st\<lparr>mines := insert c (mines st),
        knowledge := map (Sentence_mark_mine c) (knowledge st)\<rparr>"

definition mark_safe :: "cell \<Rightarrow> ai \<Rightarrow> ai" where
  "mark_safe c st =
     st\<lparr>safes := insert c (safes st),
        knowledge := map (Sentence_mark_safe c) (knowledge st)\<rparr>"

definition get_surroundings :: "ai \<Rightarrow> cell \<Rightarrow> cell list" where
  "get_surroundings st cell =
     (let left_x = snd cell - 1;
          right_x = snd cell + 1;
          up_y = fst cell - 1;
          down_y = fst cell + 1;
          left_bound = (snd cell = 0);
          right_bound = (snd cell = width st - 1);
          upper_bound = (fst cell = 0);
          lower_bound = (fst cell = height st - 1)
      in
        if left_bound then
          (if upper_bound then [(down_y, 0), (down_y, 1)]
           else if lower_bound then [(up_y, 0), (up_y, 1)]
           else [(up_y, 0), (up_y, 1), (down_y, 0), (down_y, 1)])
          @ [(fst cell, right_x)]
        else if right_bound then
          (if upper_bound then [(down_y, snd cell), (down_y, left_x)]
           else if lower_bound then [(up_y, left_x), (up_y, snd cell)]
           else [(up_y, left_x), (up_y, snd cell), (down_y, left_x), (down_y, snd cell)])
          @ [(fst cell, left_x)]
        else if upper_bound then
          (if left_bound then [(down_y, right_x), (fst cell, right_x)]
           else if right_bound then [(down_y, left_x), (fst cell, left_x)]
           else [(down_y, left_x), (fst cell, left_x), (down_y, right_x), (fst cell, right_x)])
          @ [(down_y, snd cell)]
        else if lower_bound then
          (if left_bound then [(up_y, right_x), (fst cell, right_x)]
           else if right_bound then [(up_y, left_x), (fst cell, left_x)]
           else [(up_y, left_x), (fst cell, left_x), (up_y, right_x), (fst cell, right_x)])
          @ [(up_y, snd cell)]
        else
          [(fst cell, left_x), (up_y, left_x), (down_y, left_x),
           (fst cell, right_x), (up_y, right_x), (down_y, right_x),
           (up_y, snd cell), (down_y, snd cell)])"

text \<open>
  The first loop of \<open>add_knowledge\<close>, over the surrounding cells: one step for the cell
  \<open>c\<close>, on the sentence under construction and the engine. \<open>cnt\<close> is the argument
  \<open>count\<close> of \<open>add_knowledge\<close>.
\<close>

definition observe_step :: "int \<Rightarrow> cell \<Rightarrow> sentence \<times> ai \<Rightarrow> sentence \<times> ai" where
  "observe_step cnt c acc =
     (case acc of (sent, st) \<Rightarrow>
        if cnt = 0 then
          (if c \<notin> safes st \<and> c \<notin> mines st
           then (sent\<lparr>cells := insert c (cells sent)\<rparr>, st\<lparr>safes := insert c (safes st)\<rparr>)
           else (sent, st))
        else
          (let sent1 = (if c \<notin> mines st \<and> c \<notin> safes st
                        then sent\<lparr>cells := insert c (cells sent)\<rparr> else sent)
           in (if c \<in> mines st then sent1\<lparr>count := count sent1 - 1\<rparr> else sent1, st)))"

text \<open>
  The first \<open>for\<close> loop of a sweep: it collects the known safes, the known mines and the
  sentences to remove.
\<close>

definition scan_step ::
  "sentence \<Rightarrow> cell set \<times> cell set \<times> sentence list \<Rightarrow> cell set \<times> cell set \<times> sentence list"
where
  "scan_step s acc =
     (case acc of (safes', mines', remove_empty) \<Rightarrow>
        (safes' \<union> known_safes s,
         mines' \<union> known_mines s,
         if card (cells s) = 0 \<and> count s = 0 then remove_empty @ [s] else remove_empty))"

definition scan :: "sentence list \<Rightarrow> cell set \<times> cell set \<times> sentence list" where
  "scan K = fold scan_step K ({}, {}, [])"

text \<open>
  The cleanup: \<open>self.knowledge = [x for x in self.knowledge if x not in remove_empty]\<close>.
  Membership in a Python list is decided by \<open>Sentence.__eq__\<close>, equality of cells and
  count, which is equality of records.
\<close>

definition cleanup :: "sentence list \<Rightarrow> sentence list \<Rightarrow> sentence list" where
  "cleanup remove_empty K = [x \<leftarrow> K. x \<notin> set remove_empty]"

text \<open>
  The two nested \<open>for\<close> loops over \<open>self.knowledge\<close>. The list is appended to and removed
  from while both loops run, so each loop is an index into the current list, compared
  with its current length before every step, as Python's list iterator does.
  \<open>list.remove\<close> deletes the first element equal to its argument.
\<close>

function inner :: "sentence \<Rightarrow> nat \<Rightarrow> sentence list \<Rightarrow> bool \<Rightarrow> sentence list \<times> bool" where
  "inner s1 j K ch =
     (if j < length K then
        (if s1 = K ! j then inner s1 (j + 1) K ch
         else if cells s1 \<subseteq> cells (K ! j) then
           inner s1 (j + 1)
             (remove1 (K ! j)
                (K @ [\<lparr>cells = cells (K ! j) - cells s1, count = count (K ! j) - count s1\<rparr>]))
             True
         else inner s1 (j + 1) K ch)
      else (K, ch))"
  by pat_completeness auto
termination
  by (relation "measure (\<lambda>(s1, j, K, ch). length K - j)") (auto simp: length_remove1)

declare inner.simps [simp del]

function outer :: "nat \<Rightarrow> sentence list \<Rightarrow> bool \<Rightarrow> sentence list \<times> bool" where
  "outer i K ch =
     (if i < length K then
        (case inner (K ! i) 0 K ch of (K', ch') \<Rightarrow> outer (i + 1) K' ch')
      else (K, ch))"
  by pat_completeness auto
termination
proof -
  have len: "length (fst (inner s1 j K ch)) = length K" for s1 j K ch
  proof (induction s1 j K ch rule: inner.induct)
    case (1 s1 j K ch)
    show ?case
    proof (cases "j < length K")
      case False
      then show ?thesis by (subst inner.simps) simp
    next
      case True
      then have "K ! j \<in> set K" by simp
      with True 1 show ?thesis
        by (subst inner.simps) (simp add: length_remove1)
    qed
  qed
  have step: "(case inner (K ! i) 0 K ch of (K', ch') \<Rightarrow> length K' - Suc i) < length K - i"
    if "i < length K" for i K ch
  proof (cases "inner (K ! i) 0 K ch")
    case (Pair K' ch')
    with that len [of "K ! i" 0 K ch] show ?thesis by simp
  qed
  show ?thesis
    apply (relation "measure (\<lambda>(i, K, ch). length K - i)")
     apply simp
    apply (insert step)
    apply auto
    done
qed

declare outer.simps [simp del]

text \<open>
  One pass of the body of \<open>while knowledge_changed\<close>, returning the engine and the flag.
\<close>

definition sweep :: "ai \<Rightarrow> ai \<times> bool" where
  "sweep st =
     (case scan (knowledge st) of (safes', mines', remove_empty) \<Rightarrow>
        let st1 = st\<lparr>knowledge := cleanup remove_empty (knowledge st)\<rparr>;
            safe_order = sorted_list_of_set safes';
            st2 = fold mark_safe safe_order st1;
            mine_order = sorted_list_of_set mines';
            st3 = fold mark_mine mine_order st2
        in case outer 0 (knowledge st3) (safe_order \<noteq> [] \<or> mine_order \<noteq> []) of
             (K, changed) \<Rightarrow> (st3\<lparr>knowledge := K\<rparr>, changed))"

text \<open>
  The loop \<open>while knowledge_changed\<close>: it may run forever, which is the value \<open>None\<close>.
\<close>

partial_function (option) deduce :: "ai \<Rightarrow> ai option" where
  "deduce st = (case sweep st of (st', changed) \<Rightarrow> if changed then deduce st' else Some st')"

declare deduce.simps [code]

definition add_knowledge :: "cell \<Rightarrow> int \<Rightarrow> ai \<Rightarrow> ai option" where
  "add_knowledge cell cnt st =
     (let st1 = mark_safe cell (st\<lparr>moves_made := insert cell (moves_made st)\<rparr>)
      in case fold (observe_step cnt) (get_surroundings st1 cell) (\<lparr>cells = {}, count = cnt\<rparr>, st1) of
           (sent, st2) \<Rightarrow> deduce (st2\<lparr>knowledge := knowledge st2 @ [sent]\<rparr>))"

text \<open>
  The two queries return their result (\<open>None\<close> is Python's \<open>None\<close>, returned when the loop
  ends without a \<open>return\<close>) together with the engine. \<open>order\<close> is the order in which
  \<open>for safe_cell in self.safes\<close> visits the set.
\<close>

definition make_safe_move :: "cell list \<Rightarrow> ai \<Rightarrow> cell option \<times> ai" where
  "make_safe_move order st = (find (\<lambda>safe_cell. safe_cell \<notin> moves_made st) order, st)"

definition make_random_move :: "ai \<Rightarrow> cell option \<times> ai" where
  "make_random_move st =
     (find (\<lambda>cell. cell \<notin> moves_made st \<and> cell \<notin> mines st)
        (concat (map (\<lambda>x. map (\<lambda>y. (y, x)) (range_py (height st))) (range_py (width st)))),
      st)"

section \<open>Closed forms of the marking loops\<close>

text \<open>
  What the loops \<open>for safe in safes: self.mark_safe(safe)\<close> and
  \<open>for mine in mines: self.mark_mine(mine)\<close> do to one sentence, for a whole set of
  cells at once. The lemmas \<open>fold_mark_safe\<close> and \<open>fold_mark_mine\<close> show that the loops
  compute these in whatever order the set is visited.
\<close>

definition mark_safes :: "cell set \<Rightarrow> sentence \<Rightarrow> sentence" where
  "mark_safes S s = s\<lparr>cells := cells s - S\<rparr>"

definition mark_mines :: "cell set \<Rightarrow> sentence \<Rightarrow> sentence" where
  "mark_mines S s = \<lparr>cells = cells s - S, count = count s - int (card (cells s \<inter> S))\<rparr>"

section \<open>Sequences of observations\<close>

text \<open>
  A cell is on the board of the game when it is within its height and width; the mines
  of the game are the cells of the board that hold one. \<open>box c\<close> is the 3 by 3 square
  around \<open>c\<close> without \<open>c\<close> itself, not clipped.
\<close>

definition in_bounds :: "minesweeper \<Rightarrow> cell \<Rightarrow> bool" where
  "in_bounds g c \<longleftrightarrow> 0 \<le> fst c \<and> fst c < ms_height g \<and> 0 \<le> snd c \<and> snd c < ms_width g"

definition mine_cells :: "minesweeper \<Rightarrow> cell set" where
  "mine_cells g = {c \<in> board g. in_bounds g c}"

definition box :: "cell \<Rightarrow> cell set" where
  "box c = ({fst c - 1 .. fst c + 1} \<times> {snd c - 1 .. snd c + 1}) - {c}"

text \<open>
  \<open>play g cs st\<close> reveals the cells \<open>cs\<close> in turn: for each one the game reports
  \<open>nearby_mines\<close> and the engine is told by \<open>add_knowledge\<close>. The result is \<open>None\<close> when
  one of the calls does not return. A sequence reveals safe cells when every revealed
  cell is on the board and is not a mine (\<open>add_knowledge\<close> is called "for a given safe
  cell"); it is legal when, in addition, no cell is revealed twice.
\<close>

fun play :: "minesweeper \<Rightarrow> cell list \<Rightarrow> ai \<Rightarrow> ai option" where
  "play g [] st = Some st"
| "play g (c # cs) st =
     (case add_knowledge c (nearby_mines g c) st of
        None \<Rightarrow> None
      | Some st' \<Rightarrow> play g cs st')"

definition safe_reveals :: "minesweeper \<Rightarrow> cell list \<Rightarrow> bool" where
  "safe_reveals g cs \<longleftrightarrow> (\<forall>c\<in>set cs. in_bounds g c \<and> c \<notin> board g)"

definition legal :: "minesweeper \<Rightarrow> cell list \<Rightarrow> bool" where
  "legal g cs \<longleftrightarrow> distinct cs \<and> (\<forall>c\<in>set cs. in_bounds g c \<and> c \<notin> board g)"

section \<open>Invariants of the engine\<close>

text \<open>
  \<open>mass K\<close> is the number of cells in the sentences of \<open>K\<close>, counted with multiplicity.
  A sentence is \<open>good\<close> for a set \<open>M\<close> of mines when its cell set is finite and its count
  is the number of its cells in \<open>M\<close>. An engine is \<open>sound\<close> for \<open>M\<close> when its known mines
  are in \<open>M\<close>, its known safes are not, and all its sentences are good; it agrees with a
  game when it has the game's dimensions and is sound for the game's mines.
  \<open>grows st st'\<close>: the three sets of \<open>st\<close> are contained in those of \<open>st'\<close>.
\<close>

definition mass :: "sentence list \<Rightarrow> nat" where
  "mass K = sum_list (map (\<lambda>s. card (cells s)) K)"

definition good :: "cell set \<Rightarrow> sentence \<Rightarrow> bool" where
  "good M s \<longleftrightarrow> finite (cells s) \<and> count s = int (card (cells s \<inter> M))"

definition sound :: "cell set \<Rightarrow> ai \<Rightarrow> bool" where
  "sound M st \<longleftrightarrow> mines st \<subseteq> M \<and> safes st \<inter> M = {} \<and> (\<forall>s\<in>set (knowledge st). good M s)"

definition agree :: "minesweeper \<Rightarrow> ai \<Rightarrow> bool" where
  "agree g st \<longleftrightarrow> height st = ms_height g \<and> width st = ms_width g \<and> sound (mine_cells g) st"

definition grows :: "ai \<Rightarrow> ai \<Rightarrow> bool" where
  "grows st st' \<longleftrightarrow>
     moves_made st \<subseteq> moves_made st' \<and> mines st \<subseteq> mines st' \<and> safes st \<subseteq> safes st'"

section \<open>The marking operations\<close>

lemma Sentence_mark_safe_twice:
  "Sentence_mark_safe c (Sentence_mark_safe c s) = Sentence_mark_safe c s"
  by (simp add: Sentence_mark_safe_def)

lemma Sentence_mark_mine_twice:
  "Sentence_mark_mine c (Sentence_mark_mine c s) = Sentence_mark_mine c s"
  by (simp add: Sentence_mark_mine_def)

text \<open>
  C8. For every engine state and every cell, marking the cell safe twice in a row gives
  the same engine (the three sets and every sentence) as marking it once, and likewise for
  marking it as a mine: the second call finds the cell already in the set and in no
  sentence.
\<close>

theorem mark_idempotent:
  "mark_safe c (mark_safe c st) = mark_safe c st \<and>
   mark_mine c (mark_mine c st) = mark_mine c st"
  by (simp add: mark_safe_def mark_mine_def Sentence_mark_safe_twice
      Sentence_mark_mine_twice comp_def)

section \<open>Move selection\<close>

text \<open>
  C10. Neither query writes to the engine: the engine returned with the move is the engine
  the query was called on.
\<close>

theorem queries_frame:
  "snd (make_safe_move order st) = st \<and> snd (make_random_move st) = st"
  by (simp add: make_safe_move_def make_random_move_def)

text \<open>
  C9. Whatever the order in which the set \<open>safes\<close> is visited, \<open>make_safe_move\<close> returns a
  cell of \<open>safes - moves_made\<close> when that set is not empty, and returns \<open>None\<close> exactly
  when it is empty.
\<close>

theorem make_safe_move_correct:
  assumes "set order = safes st"
  shows "(safes st - moves_made st \<noteq> {} \<longrightarrow>
           (\<exists>c. fst (make_safe_move order st) = Some c \<and> c \<in> safes st - moves_made st)) \<and>
         (fst (make_safe_move order st) = None \<longleftrightarrow> safes st - moves_made st = {})"
proof -
  have none: "find (\<lambda>c. c \<notin> moves_made st) order = None \<longleftrightarrow> safes st - moves_made st = {}"
    using assms by (auto simp: find_None_iff)
  have some: "c \<in> safes st - moves_made st"
    if "find (\<lambda>c. c \<notin> moves_made st) order = Some c" for c
    using that assms by (auto simp: find_Some_iff)
  show ?thesis
    using none some
    by (cases "find (\<lambda>c. c \<notin> moves_made st) order") (auto simp: make_safe_move_def)
qed

theorem make_safe_move_correct_witness:
  "set [(0, 0), (0, 1)] =
     safes ((init_ai 2 2)\<lparr>moves_made := {(0, 0)}, safes := {(0, 0), (0, 1)}\<rparr>) \<and>
   fst (make_safe_move [(0, 0), (0, 1)]
          ((init_ai 2 2)\<lparr>moves_made := {(0, 0)}, safes := {(0, 0), (0, 1)}\<rparr>)) = Some (0, 1)"
  using make_safe_move_correct [of "[(0, 0), (0, 1)]"
      "(init_ai 2 2)\<lparr>moves_made := {(0, 0)}, safes := {(0, 0), (0, 1)}\<rparr>"]
  by (simp add: make_safe_move_def init_ai_def)

text \<open>
  C5. \<open>make_random_move\<close> draws nothing at random: it returns the first cell, column by
  column, that is neither played nor a known mine. On a fresh 2 by 2 engine all four cells
  are candidates and the result is always \<open>(0, 0)\<close>.
\<close>

theorem make_random_move_first:
  "fst (make_random_move (init_ai 2 2)) = Some (0, 0)"
  by (simp add: make_random_move_def init_ai_def range_py_def upto.simps)

section \<open>Neighbour enumeration\<close>

text \<open>
  C3. On a board of height 1 and width 1 the only cell is both on the left and on the
  upper bound; \<open>get_surroundings\<close> takes the branch of the upper left corner and returns
  three cells, none of them on the board.
\<close>

theorem get_surroundings_1x1:
  "get_surroundings (init_ai 1 1) (0, 0) = [(1, 0), (1, 1), (0, 1)]"
  by (simp add: get_surroundings_def init_ai_def)

section \<open>The sweep: scan and cleanup\<close>

lemma fold_scan_step:
  "fold scan_step K (a, b, r) =
     (a \<union> \<Union> (known_safes ` set K), b \<union> \<Union> (known_mines ` set K),
      r @ [s \<leftarrow> K. card (cells s) = 0 \<and> count s = 0])"
  by (induction K arbitrary: a b r) (auto simp: scan_step_def)

lemma scan_eq:
  "scan K = (\<Union> (known_safes ` set K), \<Union> (known_mines ` set K),
             [s \<leftarrow> K. card (cells s) = 0 \<and> count s = 0])"
  by (simp add: scan_def fold_scan_step)

text \<open>
  C4, as stated, fails: a sentence with no cells and count 1 is not collected by the scan
  and survives the cleanup.
\<close>

theorem cleanup_keeps_nonzero_count:
  "scan [\<lparr>cells = {}, count = 1\<rparr>] = ({}, {}, []) \<and>
   cleanup [] [\<lparr>cells = {}, count = 1\<rparr>] = [\<lparr>cells = {}, count = 1\<rparr>]"
  by (simp add: scan_eq cleanup_def known_safes_def known_mines_def)

text \<open>
  C4, amended. The cleanup removes from the knowledge exactly the sentences whose cell set
  is empty and whose count is 0; every other sentence, also one with no cells and a
  nonzero count, is kept, in its place.
\<close>

theorem cleanup_removes_empty_zero:
  assumes "\<forall>s \<in> set K. finite (cells s)" and "scan K = (sf, mn, remove_empty)"
  shows "cleanup remove_empty K = [s \<leftarrow> K. \<not> (cells s = {} \<and> count s = 0)]"
proof -
  have "remove_empty = [s \<leftarrow> K. card (cells s) = 0 \<and> count s = 0]"
    using assms(2) by (simp add: scan_eq)
  then show ?thesis
    using assms(1) unfolding cleanup_def by (auto intro!: filter_cong)
qed

theorem cleanup_removes_empty_zero_witness:
  "cleanup [\<lparr>cells = {}, count = 0\<rparr>]
     [\<lparr>cells = {}, count = 0\<rparr>, \<lparr>cells = {(0, 1)}, count = 1\<rparr>, \<lparr>cells = {}, count = 2\<rparr>]
   = [\<lparr>cells = {(0, 1)}, count = 1\<rparr>, \<lparr>cells = {}, count = 2\<rparr>]"
  using cleanup_removes_empty_zero
    [of "[\<lparr>cells = {}, count = 0\<rparr>, \<lparr>cells = {(0, 1)}, count = 1\<rparr>, \<lparr>cells = {}, count = 2\<rparr>]"
        "{}" "{(0, 1)}" "[\<lparr>cells = {}, count = 0\<rparr>]"]
  by (simp add: scan_eq known_safes_def known_mines_def)

section \<open>The marking loops do not depend on the order\<close>

lemma fold_mark_safe:
  "fold mark_safe xs st =
     st\<lparr>safes := safes st \<union> set xs, knowledge := map (mark_safes (set xs)) (knowledge st)\<rparr>"
proof (induction xs arbitrary: st)
  case Nil
  show ?case by (simp add: mark_safes_def)
next
  case (Cons x xs)
  have diff: "A - {x} - B = A - insert x B" for A B :: "cell set" by auto
  have key: "mark_safes (set xs) (Sentence_mark_safe x s) = mark_safes (insert x (set xs)) s" for s
    by (simp add: mark_safes_def Sentence_mark_safe_def diff)
  have "fold mark_safe (x # xs) st = fold mark_safe xs (mark_safe x st)" by simp
  also have "\<dots> = (mark_safe x st)\<lparr>safes := safes (mark_safe x st) \<union> set xs,
      knowledge := map (mark_safes (set xs)) (knowledge (mark_safe x st))\<rparr>"
    by (rule Cons.IH)
  also have "\<dots> = st\<lparr>safes := safes st \<union> set (x # xs),
      knowledge := map (mark_safes (set (x # xs))) (knowledge st)\<rparr>"
    by (simp add: mark_safe_def comp_def key)
  finally show ?case .
qed

lemma fold_mark_mine:
  "fold mark_mine xs st =
     st\<lparr>mines := mines st \<union> set xs, knowledge := map (mark_mines (set xs)) (knowledge st)\<rparr>"
proof (induction xs arbitrary: st)
  case Nil
  have "mark_mines {} s = s" for s by (simp add: mark_mines_def)
  then show ?case by (simp add: map_idI)
next
  case (Cons x xs)
  have diff: "A - {x} - B = A - insert x B" for A B :: "cell set" by auto
  have key: "mark_mines (set xs) (Sentence_mark_mine x s) = mark_mines (insert x (set xs)) s" for s
  proof (cases "x \<in> cells s")
    case False
    then show ?thesis by (simp add: mark_mines_def Sentence_mark_mine_def)
  next
    case True
    have "cells s \<inter> insert x (set xs) = insert x ((cells s - {x}) \<inter> set xs)"
      using True by auto
    moreover have "x \<notin> (cells s - {x}) \<inter> set xs" by simp
    moreover have "finite ((cells s - {x}) \<inter> set xs)" by simp
    ultimately have "card (cells s \<inter> insert x (set xs)) = Suc (card ((cells s - {x}) \<inter> set xs))"
      by (metis card_insert_disjoint)
    with True show ?thesis
      by (simp add: mark_mines_def Sentence_mark_mine_def diff)
  qed
  have "fold mark_mine (x # xs) st = fold mark_mine xs (mark_mine x st)" by simp
  also have "\<dots> = (mark_mine x st)\<lparr>mines := mines (mark_mine x st) \<union> set xs,
      knowledge := map (mark_mines (set xs)) (knowledge (mark_mine x st))\<rparr>"
    by (rule Cons.IH)
  also have "\<dots> = st\<lparr>mines := mines st \<union> set (x # xs),
      knowledge := map (mark_mines (set (x # xs))) (knowledge st)\<rparr>"
    by (simp add: mark_mine_def comp_def key)
  finally show ?case .
qed

lemma Sentence_mark_safe_eq: "Sentence_mark_safe c s = mark_safes {c} s"
  by (simp add: Sentence_mark_safe_def mark_safes_def)

section \<open>Subset resolution keeps the sentences good and does not add cells\<close>

lemma resolve_good:
  assumes "good M s1" "good M s2" "cells s1 \<subseteq> cells s2"
  shows "good M \<lparr>cells = cells s2 - cells s1, count = count s2 - count s1\<rparr>"
proof -
  have fin: "finite (cells s2 \<inter> M)" "finite (cells s1 \<inter> M)"
    using assms by (simp_all add: good_def)
  have sub: "cells s1 \<inter> M \<subseteq> cells s2 \<inter> M" using assms(3) by auto
  have "(cells s2 - cells s1) \<inter> M = (cells s2 \<inter> M) - (cells s1 \<inter> M)" by auto
  then have "card ((cells s2 - cells s1) \<inter> M) = card (cells s2 \<inter> M) - card (cells s1 \<inter> M)"
    using fin sub by (simp add: card_Diff_subset)
  moreover have "card (cells s1 \<inter> M) \<le> card (cells s2 \<inter> M)"
    using fin sub by (simp add: card_mono)
  ultimately show ?thesis
    using assms by (simp add: good_def)
qed

lemma good_same_cells: "good M s1 \<Longrightarrow> good M s2 \<Longrightarrow> cells s1 = cells s2 \<Longrightarrow> s1 = s2"
  by (simp add: good_def)

lemma mass_remove1: "s \<in> set K \<Longrightarrow> mass K = card (cells s) + mass (remove1 s K)"
  unfolding mass_def by (rule sum_list_map_remove1)

lemma fire_props:
  assumes g1: "good M s1" and gK: "\<forall>s\<in>set K. good M s" and in2: "s2 \<in> set K"
    and ne: "s1 \<noteq> s2" and sub: "cells s1 \<subseteq> cells s2"
    and K1: "K1 = remove1 s2 (K @ [\<lparr>cells = cells s2 - cells s1, count = count s2 - count s1\<rparr>])"
  shows "\<forall>s\<in>set K1. good M s"
    and "mass K1 + card (cells s1) = mass K"
    and "(\<forall>s\<in>set K. cells s \<noteq> {}) \<Longrightarrow> \<forall>s\<in>set K1. cells s \<noteq> {}"
proof -
  let ?N = "\<lparr>cells = cells s2 - cells s1, count = count s2 - count s1\<rparr>"
  have g2: "good M s2" using gK in2 by blast
  have gN: "good M ?N" using g1 g2 sub by (rule resolve_good)
  have subset: "set K1 \<subseteq> insert ?N (set K)"
    unfolding K1 using set_remove1_subset [of s2 "K @ [?N]"] by auto
  show "\<forall>s\<in>set K1. good M s" using subset gK gN by blast
  have fin: "finite (cells s2)" "finite (cells s1)" using g1 g2 by (simp_all add: good_def)
  have cN: "card (cells ?N) + card (cells s1) = card (cells s2)"
    using fin sub by (simp add: card_Diff_subset card_mono)
  have "mass (K @ [?N]) = card (cells s2) + mass K1"
    unfolding K1 using in2 by (intro mass_remove1) simp
  moreover have "mass (K @ [?N]) = mass K + card (cells ?N)" by (simp add: mass_def)
  ultimately show "mass K1 + card (cells s1) = mass K" using cN by linarith
  have "cells ?N \<noteq> {}"
  proof
    assume "cells ?N = {}"
    then have "cells s1 = cells s2" using sub by auto
    then show False using g1 g2 ne by (auto dest: good_same_cells)
  qed
  then show "\<forall>s\<in>set K1. cells s \<noteq> {}" if "\<forall>s\<in>set K. cells s \<noteq> {}"
    using that subset by blast
qed

lemma inner_props:
  assumes "good M s1" "\<forall>s\<in>set K. good M s" "inner s1 j K ch = (K', ch')"
  shows "(\<forall>s\<in>set K'. good M s) \<and> mass K' \<le> mass K \<and> (ch \<longrightarrow> ch') \<and>
         (cells s1 \<noteq> {} \<longrightarrow> (\<forall>s\<in>set K. cells s \<noteq> {}) \<longrightarrow>
            (\<forall>s\<in>set K'. cells s \<noteq> {}) \<and> (ch' \<longrightarrow> ch \<or> mass K' < mass K))"
  using assms
proof (induction s1 j K ch rule: inner.induct)
  case (1 s1 j K ch)
  show ?case
  proof (cases "j < length K")
    case False
    then have "inner s1 j K ch = (K, ch)" by (subst inner.simps) simp
    with "1.prems"(3) have "K' = K" "ch' = ch" by simp_all
    with "1.prems" show ?thesis by simp
  next
    case lt: True
    show ?thesis
    proof (cases "s1 = K ! j")
      case True
      have "inner s1 j K ch = inner s1 (j + 1) K ch"
        by (subst inner.simps) (use lt True in simp)
      with "1.prems"(3) have "inner s1 (j + 1) K ch = (K', ch')" by simp
      with "1.IH"(1) [OF lt True "1.prems"(1,2)] show ?thesis .
    next
      case ne: False
      show ?thesis
      proof (cases "cells s1 \<subseteq> cells (K ! j)")
        case False
        have "inner s1 j K ch = inner s1 (j + 1) K ch"
          by (subst inner.simps) (use lt ne False in simp)
        with "1.prems"(3) have "inner s1 (j + 1) K ch = (K', ch')" by simp
        with "1.IH"(3) [OF lt ne False "1.prems"(1,2)] show ?thesis .
      next
        case sub: True
        define K1 where "K1 = remove1 (K ! j)
          (K @ [\<lparr>cells = cells (K ! j) - cells s1, count = count (K ! j) - count s1\<rparr>])"
        have in2: "K ! j \<in> set K" using lt by simp
        note fp = fire_props [OF "1.prems"(1,2) in2 ne sub K1_def]
        have "inner s1 j K ch = inner s1 (j + 1) K1 True"
          unfolding K1_def by (subst inner.simps) (use lt ne sub in simp)
        with "1.prems"(3) have run: "inner s1 (j + 1) K1 True = (K', ch')" by simp
        have ih: "(\<forall>s\<in>set K'. good M s) \<and> mass K' \<le> mass K1 \<and> (True \<longrightarrow> ch') \<and>
           (cells s1 \<noteq> {} \<longrightarrow> (\<forall>s\<in>set K1. cells s \<noteq> {}) \<longrightarrow>
              (\<forall>s\<in>set K'. cells s \<noteq> {}) \<and> (ch' \<longrightarrow> True \<or> mass K' < mass K1))"
          using "1.IH"(2) [OF lt ne sub "1.prems"(1)] fp(1) run unfolding K1_def by blast
        have le: "mass K1 \<le> mass K" using fp(2) by linarith
        have strict: "mass K1 < mass K" if "cells s1 \<noteq> {}"
        proof -
          have "finite (cells s1)" using "1.prems"(1) by (simp add: good_def)
          with that have "0 < card (cells s1)" by (simp add: card_gt_0_iff)
          with fp(2) show ?thesis by linarith
        qed
        show ?thesis
        proof (intro conjI impI)
          show "\<forall>s\<in>set K'. good M s" using ih by blast
          show "mass K' \<le> mass K" using ih le by linarith
          show "ch'" using ih by blast
        next
          assume ne1: "cells s1 \<noteq> {}" and neK: "\<forall>s\<in>set K. cells s \<noteq> {}"
          have "\<forall>s\<in>set K1. cells s \<noteq> {}" using fp(3) neK by blast
          with ih ne1 show "\<forall>s\<in>set K'. cells s \<noteq> {}" by blast
          have "mass K' \<le> mass K1" using ih by blast
          with strict [OF ne1] have "mass K' < mass K" by linarith
          then show "ch \<or> mass K' < mass K" by blast
        qed
      qed
    qed
  qed
qed

lemma outer_props:
  assumes "\<forall>s\<in>set K. good M s" "outer i K ch = (K', ch')"
  shows "(\<forall>s\<in>set K'. good M s) \<and> mass K' \<le> mass K \<and> (ch \<longrightarrow> ch') \<and>
         ((\<forall>s\<in>set K. cells s \<noteq> {}) \<longrightarrow>
            (\<forall>s\<in>set K'. cells s \<noteq> {}) \<and> (ch' \<longrightarrow> ch \<or> mass K' < mass K))"
  using assms
proof (induction i K ch rule: outer.induct)
  case (1 i K ch)
  show ?case
  proof (cases "i < length K")
    case False
    then have "outer i K ch = (K, ch)" by (subst outer.simps) simp
    with "1.prems"(2) have "K' = K" "ch' = ch" by simp_all
    with "1.prems" show ?thesis by simp
  next
    case lt: True
    obtain K1 ch1 where in1: "inner (K ! i) 0 K ch = (K1, ch1)" by (cases "inner (K ! i) 0 K ch")
    have mem: "K ! i \<in> set K" using lt by simp
    then have g1: "good M (K ! i)" using "1.prems"(1) by blast
    note ip = inner_props [OF g1 "1.prems"(1) in1]
    have "outer i K ch = outer (i + 1) K1 ch1"
      by (subst outer.simps) (use lt in1 in simp)
    with "1.prems"(2) have run: "outer (i + 1) K1 ch1 = (K', ch')" by simp
    have gK1: "\<forall>s\<in>set K1. good M s" using ip by blast
    note ih = "1.IH" [OF lt in1 [symmetric] gK1 run]
    show ?thesis
    proof (intro conjI impI)
      show "\<forall>s\<in>set K'. good M s" using ih by blast
      show "mass K' \<le> mass K" using ih ip by linarith
      show "ch'" if "ch" using that ih ip by blast
    next
      assume ne: "\<forall>s\<in>set K. cells s \<noteq> {}"
      then have "cells (K ! i) \<noteq> {}" using mem by blast
      with ip ne have a: "\<forall>s\<in>set K1. cells s \<noteq> {}" and b: "ch1 \<longrightarrow> ch \<or> mass K1 < mass K"
        by blast+
      from ih a have c: "\<forall>s\<in>set K'. cells s \<noteq> {}" and d: "ch' \<longrightarrow> ch1 \<or> mass K' < mass K1"
        by blast+
      show "\<forall>s\<in>set K'. cells s \<noteq> {}" by (rule c)
      have "mass K' \<le> mass K1" "mass K1 \<le> mass K" using ih ip by blast+
      with b d show "ch' \<Longrightarrow> ch \<or> mass K' < mass K" by linarith
    qed
  qed
qed

section \<open>One sweep\<close>

lemma sweep_unfold:
  "sweep st =
     (let S = set (sorted_list_of_set (\<Union> (known_safes ` set (knowledge st))));
          N = set (sorted_list_of_set (\<Union> (known_mines ` set (knowledge st))));
          K1 = [s \<leftarrow> knowledge st. \<not> (card (cells s) = 0 \<and> count s = 0)]
      in case outer 0 (map (mark_mines N) (map (mark_safes S) K1)) (S \<noteq> {} \<or> N \<noteq> {}) of
           (K, changed) \<Rightarrow>
             (st\<lparr>mines := mines st \<union> N, safes := safes st \<union> S, knowledge := K\<rparr>, changed))"
proof -
  have "cleanup [s \<leftarrow> K. card (cells s) = 0 \<and> count s = 0] K =
        [s \<leftarrow> K. \<not> (card (cells s) = 0 \<and> count s = 0)]" for K
    unfolding cleanup_def by (rule filter_cong) auto
  then show ?thesis
    by (simp add: sweep_def scan_eq fold_mark_safe fold_mark_mine Let_def split: prod.splits)
qed

lemma mass_map_le:
  "(\<And>s. s \<in> set K \<Longrightarrow> card (cells (f s)) \<le> card (cells s)) \<Longrightarrow> mass (map f K) \<le> mass K"
  unfolding mass_def by (induction K) (auto intro: add_mono)

lemma mass_map_less:
  assumes "\<And>s. s \<in> set K \<Longrightarrow> card (cells (f s)) \<le> card (cells s)"
    and "s0 \<in> set K" "card (cells (f s0)) < card (cells s0)"
  shows "mass (map f K) < mass K"
  using assms
proof (induction K)
  case Nil
  then show ?case by simp
next
  case (Cons a K)
  have le: "mass (map f K) \<le> mass K" using Cons.prems(1) by (intro mass_map_le) simp
  have lea: "card (cells (f a)) \<le> card (cells a)" using Cons.prems(1) by simp
  show ?case
  proof (cases "s0 = a")
    case True
    with Cons.prems(3) le show ?thesis by (simp add: mass_def)
  next
    case False
    with Cons.prems have "s0 \<in> set K" by simp
    with Cons.IH Cons.prems have "mass (map f K) < mass K" by simp
    with lea show ?thesis by (simp add: mass_def)
  qed
qed

lemma mass_filter_le: "mass (filter P K) \<le> mass K"
  unfolding mass_def by (induction K) auto

lemma good_mark_safes:
  assumes "good M s" "S \<inter> M = {}"
  shows "good M (mark_safes S s)"
proof -
  have "(cells s - S) \<inter> M = cells s \<inter> M" using assms(2) by auto
  with assms(1) show ?thesis by (simp add: good_def mark_safes_def)
qed

lemma good_mark_mines:
  assumes "good M s" "N \<subseteq> M"
  shows "good M (mark_mines N s)"
proof -
  have fin: "finite (cells s \<inter> M)" using assms(1) by (simp add: good_def)
  have sub: "cells s \<inter> N \<subseteq> cells s \<inter> M" using assms(2) by auto
  have "(cells s - N) \<inter> M = (cells s \<inter> M) - (cells s \<inter> N)" using assms(2) by auto
  moreover have "card ((cells s \<inter> M) - (cells s \<inter> N)) = card (cells s \<inter> M) - card (cells s \<inter> N)"
    using fin sub assms(1) by (intro card_Diff_subset) (auto simp: good_def)
  ultimately have "card ((cells s - N) \<inter> M) = card (cells s \<inter> M) - card (cells s \<inter> N)"
    by simp
  moreover have "card (cells s \<inter> N) \<le> card (cells s \<inter> M)" using fin sub by (simp add: card_mono)
  ultimately show ?thesis using assms(1) by (simp add: good_def mark_mines_def)
qed

lemma card_marks:
  assumes "finite (cells s)"
  shows "card (cells (mark_mines N (mark_safes S s))) \<le> card (cells s)"
    and "cells s \<inter> (S \<union> N) \<noteq> {} \<Longrightarrow> card (cells (mark_mines N (mark_safes S s))) < card (cells s)"
proof -
  have eq: "cells (mark_mines N (mark_safes S s)) = cells s - (S \<union> N)"
    by (auto simp: mark_mines_def mark_safes_def)
  show "card (cells (mark_mines N (mark_safes S s))) \<le> card (cells s)"
    unfolding eq using assms by (simp add: card_mono)
  show "card (cells (mark_mines N (mark_safes S s))) < card (cells s)" if "cells s \<inter> (S \<union> N) \<noteq> {}"
    unfolding eq using assms that by (intro psubset_card_mono) auto
qed

lemma known_safes_sound: "good M s \<Longrightarrow> known_safes s \<inter> M = {}"
  by (auto simp: known_safes_def good_def)

lemma known_mines_sound:
  assumes "good M s" shows "known_mines s \<subseteq> M"
proof (cases "int (card (cells s)) = count s")
  case False
  then show ?thesis by (simp add: known_mines_def)
next
  case True
  with assms have "card (cells s \<inter> M) = card (cells s)" "finite (cells s)"
    by (simp_all add: good_def)
  then have "cells s \<inter> M = cells s" by (intro card_subset_eq) auto
  then show ?thesis by (auto simp: known_mines_def)
qed

lemma sweep_props:
  assumes snd: "sound M st" and sw: "sweep st = (st', ch)"
  shows "sound M st'" and "height st' = height st" and "width st' = width st"
    and "moves_made st' = moves_made st"
    and "ch \<Longrightarrow> mass (knowledge st') < mass (knowledge st)"
proof -
  let ?K0 = "knowledge st"
  define S0 where "S0 = \<Union> (known_safes ` set ?K0)"
  define N0 where "N0 = \<Union> (known_mines ` set ?K0)"
  define K1 where "K1 = [s \<leftarrow> ?K0. \<not> (card (cells s) = 0 \<and> count s = 0)]"
  define K3 where "K3 = map (mark_mines N0) (map (mark_safes S0) K1)"
  have gK0: "\<forall>s\<in>set ?K0. good M s" using snd by (simp add: sound_def)
  have finS: "finite S0" unfolding S0_def using gK0
    by (auto simp: known_safes_def good_def)
  have finN: "finite N0" unfolding N0_def using gK0
    by (auto simp: known_mines_def good_def)
  have setS: "set (sorted_list_of_set S0) = S0" using finS by simp
  have setN: "set (sorted_list_of_set N0) = N0" using finN by simp
  obtain K ch0 where out: "outer 0 K3 (S0 \<noteq> {} \<or> N0 \<noteq> {}) = (K, ch0)"
    by (cases "outer 0 K3 (S0 \<noteq> {} \<or> N0 \<noteq> {})")
  have "sweep st = (st\<lparr>mines := mines st \<union> N0, safes := safes st \<union> S0, knowledge := K\<rparr>, ch0)"
    using out unfolding sweep_unfold Let_def S0_def [symmetric] N0_def [symmetric] setS setN
      K1_def [symmetric] K3_def [symmetric] by simp
  with sw have st': "st' = st\<lparr>mines := mines st \<union> N0, safes := safes st \<union> S0, knowledge := K\<rparr>"
    and ch: "ch = ch0" by simp_all
  have S_M: "S0 \<inter> M = {}" unfolding S0_def using gK0 known_safes_sound by blast
  have N_M: "N0 \<subseteq> M" unfolding N0_def using gK0 known_mines_sound by blast
  have sub1: "set K1 \<subseteq> set ?K0" unfolding K1_def by auto
  have gK1: "\<forall>s\<in>set K1. good M s" using gK0 sub1 by blast
  have gK3: "\<forall>s\<in>set K3. good M s"
    unfolding K3_def using gK1 S_M N_M by (auto intro: good_mark_mines good_mark_safes)
  have ne1: "\<forall>s\<in>set K1. cells s \<noteq> {}"
  proof
    fix s assume s: "s \<in> set K1"
    show "cells s \<noteq> {}"
    proof
      assume e: "cells s = {}"
      with gK1 s have "count s = 0" by (auto simp: good_def)
      with e s show False by (simp add: K1_def)
    qed
  qed
  have m10: "mass K1 \<le> mass ?K0" unfolding K1_def by (rule mass_filter_le)
  have K3': "K3 = map (\<lambda>s. mark_mines N0 (mark_safes S0 s)) K1" by (simp add: K3_def comp_def)
  have m31: "mass K3 \<le> mass K1"
    unfolding K3' using gK1 by (intro mass_map_le card_marks(1)) (simp add: good_def)
  note op = outer_props [OF gK3 out]
  show "sound M st'"
    using snd op S_M N_M by (auto simp: st' sound_def)
  show "height st' = height st" "width st' = width st" "moves_made st' = moves_made st"
    by (simp_all add: st')
  show "mass (knowledge st') < mass (knowledge st)" if "ch"
  proof (cases "S0 \<noteq> {} \<or> N0 \<noteq> {}")
    case True
    then obtain s where s1: "s \<in> set ?K0" and s2: "known_safes s \<noteq> {} \<or> known_mines s \<noteq> {}"
      unfolding S0_def N0_def by blast
    from s2 have s3: "cells s \<noteq> {}" and s4: "known_safes s = cells s \<or> known_mines s = cells s"
      by (auto simp: known_safes_def known_mines_def split: if_splits)
    from s1 have "known_safes s \<subseteq> S0" "known_mines s \<subseteq> N0"
      unfolding S0_def N0_def by blast+
    with s4 have "cells s \<subseteq> S0 \<union> N0" by auto
    note s = s1 s3 this
    have fin: "finite (cells s)" using gK0 s(1) by (simp add: good_def)
    with s(2) have "card (cells s) \<noteq> 0" by simp
    with s(1) have s1: "s \<in> set K1" by (simp add: K1_def)
    have "cells s \<inter> (S0 \<union> N0) \<noteq> {}" using s(2,3) by auto
    with fin have "card (cells (mark_mines N0 (mark_safes S0 s))) < card (cells s)"
      by (rule card_marks(2))
    then have "mass K3 < mass K1"
      unfolding K3' using gK1 s1
      by (intro mass_map_less [where ?s0.0 = s] card_marks(1)) (simp_all add: good_def)
    with op m10 show ?thesis by (simp add: st')
  next
    case False
    then have e: "S0 = {}" "N0 = {}" by simp_all
    have "mark_mines {} (mark_safes {} s) = s" for s
      by (simp add: mark_mines_def mark_safes_def)
    then have "K3 = K1" unfolding K3' e by (simp add: map_idI)
    with op ne1 that ch False have "mass K < mass K1" by auto
    with m10 show ?thesis by (simp add: st')
  qed
qed

section \<open>The deduction loop terminates on a sound engine\<close>

lemma deduce_terminates:
  assumes "sound M st"
  shows "\<exists>st'. deduce st = Some st' \<and> sound M st' \<and> height st' = height st \<and>
           width st' = width st \<and> moves_made st' = moves_made st"
  using assms
proof (induction "mass (knowledge st)" arbitrary: st rule: less_induct)
  case less
  obtain st1 ch where sw: "sweep st = (st1, ch)" by (cases "sweep st")
  note sp = sweep_props [OF less.prems sw]
  show ?case
  proof (cases ch)
    case False
    with sw have "deduce st = Some st1" by (subst deduce.simps) simp
    with sp show ?thesis by simp
  next
    case True
    with sw have eq: "deduce st = deduce st1" by (subst deduce.simps) simp
    from sp(5) True have "mass (knowledge st1) < mass (knowledge st)" by simp
    from less.hyps [OF this sp(1)] sp(2,3,4) show ?thesis unfolding eq by auto
  qed
qed

section \<open>The surroundings and the count reported by the game\<close>

lemma nearby_mines_card: "nearby_mines g c = int (card (box c \<inter> mine_cells g))"
proof -
  let ?xs = "List.product (range2_py (fst c - 1) (fst c + 2)) (range2_py (snd c - 1) (snd c + 2))"
  let ?P = "\<lambda>(i, j). (i, j) \<noteq> c \<and> 0 \<le> i \<and> i < ms_height g \<and> 0 \<le> j \<and> j < ms_width g \<and> (i, j) \<in> board g"
  have d: "distinct ?xs" by (simp add: distinct_product range2_py_def)
  have "fst c + 2 - 1 = fst c + 1" "snd c + 2 - 1 = snd c + 1" by simp_all
  then have s: "set ?xs = {fst c - 1 .. fst c + 1} \<times> {snd c - 1 .. snd c + 1}"
    unfolding range2_py_def set_product set_upto by (simp only:)
  have "length (filter ?P ?xs) = card ({x. ?P x} \<inter> set ?xs)"
    using d by (rule distinct_length_filter)
  also have "{x. ?P x} \<inter> set ?xs = box c \<inter> mine_cells g"
    unfolding s by (auto simp: box_def mine_cells_def in_bounds_def)
  finally show ?thesis by (simp add: nearby_mines_def)
qed

lemma surroundings_distinct: "distinct (get_surroundings st c)"
  by (simp add: get_surroundings_def Let_def)

lemma surroundings_box: "set (get_surroundings st c) \<subseteq> box c"
  by (cases c) (auto simp: get_surroundings_def Let_def box_def)

lemma surroundings_cover:
  assumes "0 \<le> fst c" "fst c < height st" "0 \<le> snd c" "snd c < width st"
    and "x \<in> box c" "0 \<le> fst x" "fst x < height st" "0 \<le> snd x" "snd x < width st"
  shows "x \<in> set (get_surroundings st c)"
proof -
  obtain r k where c: "c = (r, k)" by (cases c)
  obtain i j where x: "x = (i, j)" by (cases x)
  have i: "i = r - 1 \<or> i = r \<or> i = r + 1" and j: "j = k - 1 \<or> j = k \<or> j = k + 1"
    and ne: "\<not> (i = r \<and> j = k)"
    using assms(5) unfolding c x box_def by auto
  have b: "0 \<le> r" "r < height st" "0 \<le> k" "k < width st"
    "0 \<le> i" "i < height st" "0 \<le> j" "j < width st"
    using assms unfolding c x by simp_all
  have a1: "(r - 1, k - 1) \<in> set (get_surroundings st (r, k))" if "0 \<le> r - 1" "0 \<le> k - 1"
    using that b(1-4) by (simp add: get_surroundings_def Let_def)
  have a2: "(r - 1, k) \<in> set (get_surroundings st (r, k))" if "0 \<le> r - 1"
    using that b(1-4) by (simp add: get_surroundings_def Let_def)
  have a3: "(r - 1, k + 1) \<in> set (get_surroundings st (r, k))" if "0 \<le> r - 1" "k + 1 < width st"
    using that b(1-4) by (simp add: get_surroundings_def Let_def)
  have a4: "(r, k - 1) \<in> set (get_surroundings st (r, k))" if "0 \<le> k - 1"
    using that b(1-4) by (simp add: get_surroundings_def Let_def)
  have a5: "(r, k + 1) \<in> set (get_surroundings st (r, k))" if "k + 1 < width st"
    using that b(1-4) by (simp add: get_surroundings_def Let_def)
  have a6: "(r + 1, k - 1) \<in> set (get_surroundings st (r, k))" if "r + 1 < height st" "0 \<le> k - 1"
    using that b(1-4) by (simp add: get_surroundings_def Let_def)
  have a7: "(r + 1, k) \<in> set (get_surroundings st (r, k))" if "r + 1 < height st"
    using that b(1-4) by (simp add: get_surroundings_def Let_def)
  have a8: "(r + 1, k + 1) \<in> set (get_surroundings st (r, k))" if "r + 1 < height st" "k + 1 < width st"
    using that b(1-4) by (simp add: get_surroundings_def Let_def)
  show ?thesis
    unfolding c x using i j ne b(5-8) a1 a2 a3 a4 a5 a6 a7 a8 by blast
qed

lemma surroundings_mines:
  assumes "in_bounds g c" "height st = ms_height g" "width st = ms_width g"
  shows "set (get_surroundings st c) \<inter> mine_cells g = box c \<inter> mine_cells g"
proof
  show "set (get_surroundings st c) \<inter> mine_cells g \<subseteq> box c \<inter> mine_cells g"
    using surroundings_box [of st c] by blast
  show "box c \<inter> mine_cells g \<subseteq> set (get_surroundings st c) \<inter> mine_cells g"
  proof
    fix x assume x: "x \<in> box c \<inter> mine_cells g"
    then have "in_bounds g x" by (simp add: mine_cells_def)
    with assms x have "x \<in> set (get_surroundings st c)"
      by (intro surroundings_cover) (simp_all add: in_bounds_def)
    with x show "x \<in> set (get_surroundings st c) \<inter> mine_cells g" by simp
  qed
qed

text \<open>
  On a board of height and width at least 2, the surroundings of a cell of the board are
  exactly the cells of the 3 by 3 square around it that are on the board, the cell itself
  left out.
\<close>

lemma surroundings_in_bounds:
  assumes "2 \<le> height st" "2 \<le> width st"
    and "0 \<le> fst c" "fst c < height st" "0 \<le> snd c" "snd c < width st"
    and "x \<in> set (get_surroundings st c)"
  shows "0 \<le> fst x \<and> fst x < height st \<and> 0 \<le> snd x \<and> snd x < width st"
proof -
  obtain r k where c: "c = (r, k)" by (cases c)
  have "\<forall>x\<in>set (get_surroundings st (r, k)).
      0 \<le> fst x \<and> fst x < height st \<and> 0 \<le> snd x \<and> snd x < width st"
    using assms(1-6) unfolding c by (simp add: get_surroundings_def Let_def)
  with assms(7) show ?thesis unfolding c by blast
qed

lemma get_surroundings_exact:
  assumes "2 \<le> height st" "2 \<le> width st"
    and "0 \<le> fst c" "fst c < height st" "0 \<le> snd c" "snd c < width st"
  shows "set (get_surroundings st c) =
     {x \<in> box c. 0 \<le> fst x \<and> fst x < height st \<and> 0 \<le> snd x \<and> snd x < width st}"
proof (intro equalityI subsetI)
  fix x assume x: "x \<in> set (get_surroundings st c)"
  with surroundings_box [of st c] have "x \<in> box c" by blast
  with surroundings_in_bounds [OF assms x]
  show "x \<in> {x \<in> box c. 0 \<le> fst x \<and> fst x < height st \<and> 0 \<le> snd x \<and> snd x < width st}"
    by simp
next
  fix x assume "x \<in> {x \<in> box c. 0 \<le> fst x \<and> fst x < height st \<and> 0 \<le> snd x \<and> snd x < width st}"
  with assms(3-6) show "x \<in> set (get_surroundings st c)"
    by (intro surroundings_cover) simp_all
qed

section \<open>A truthful observation keeps the engine sound\<close>

lemma fold_observe_zero:
  "fold (observe_step 0) xs (sent, st) =
     (sent\<lparr>cells := cells sent \<union> {c \<in> set xs. c \<notin> safes st \<and> c \<notin> mines st}\<rparr>,
      st\<lparr>safes := safes st \<union> {c \<in> set xs. c \<notin> safes st \<and> c \<notin> mines st}\<rparr>)"
proof (induction xs arbitrary: sent st)
  case Nil
  show ?case by simp
next
  case (Cons x xs)
  show ?case
  proof (cases "x \<notin> safes st \<and> x \<notin> mines st")
    case True
    have step: "observe_step 0 x (sent, st) =
        (sent\<lparr>cells := insert x (cells sent)\<rparr>, st\<lparr>safes := insert x (safes st)\<rparr>)"
      using True by (simp add: observe_step_def)
    have e1: "insert x (cells sent) \<union> {c \<in> set xs. c \<notin> insert x (safes st) \<and> c \<notin> mines st}
        = cells sent \<union> {c \<in> set (x # xs). c \<notin> safes st \<and> c \<notin> mines st}"
      using True by auto
    have e2: "insert x (safes st) \<union> {c \<in> set xs. c \<notin> insert x (safes st) \<and> c \<notin> mines st}
        = safes st \<union> {c \<in> set (x # xs). c \<notin> safes st \<and> c \<notin> mines st}"
      using True by auto
    show ?thesis
      unfolding fold_Cons comp_def step Cons.IH using e1 e2 by simp
  next
    case False
    have step: "observe_step 0 x (sent, st) = (sent, st)"
      using False by (auto simp: observe_step_def)
    have e: "{c \<in> set (x # xs). c \<notin> safes st \<and> c \<notin> mines st}
        = {c \<in> set xs. c \<notin> safes st \<and> c \<notin> mines st}"
      using False by auto
    show ?thesis
      unfolding fold_Cons comp_def step Cons.IH e by simp
  qed
qed

lemma fold_observe_nonzero:
  assumes "cnt \<noteq> 0"
  shows "fold (observe_step cnt) xs (sent, st) =
     (\<lparr>cells = cells sent \<union> {c \<in> set xs. c \<notin> mines st \<and> c \<notin> safes st},
       count = count sent - int (length (filter (\<lambda>c. c \<in> mines st) xs))\<rparr>, st)"
proof (induction xs arbitrary: sent)
  case Nil
  show ?case by simp
next
  case (Cons x xs)
  define sent' where "sent' = fst (observe_step cnt x (sent, st))"
  have step: "observe_step cnt x (sent, st) = (sent', st)"
    using assms by (simp add: sent'_def observe_step_def Let_def)
  have c1: "cells sent' = (if x \<notin> mines st \<and> x \<notin> safes st then insert x (cells sent) else cells sent)"
    using assms by (simp add: sent'_def observe_step_def Let_def)
  have c2: "count sent' = (if x \<in> mines st then count sent - 1 else count sent)"
    using assms by (simp add: sent'_def observe_step_def Let_def)
  have e1: "cells sent' \<union> {c \<in> set xs. c \<notin> mines st \<and> c \<notin> safes st}
      = cells sent \<union> {c \<in> set (x # xs). c \<notin> mines st \<and> c \<notin> safes st}"
    unfolding c1 by auto
  have e2: "count sent' - int (length (filter (\<lambda>c. c \<in> mines st) xs))
      = count sent - int (length (filter (\<lambda>c. c \<in> mines st) (x # xs)))"
    unfolding c2 by simp
  show ?case
    unfolding fold_Cons comp_def step Cons.IH e1 e2 ..
qed

lemma sound_mark_safe:
  assumes "sound M st" "c \<notin> M"
  shows "sound M (mark_safe c st)"
  using assms
  by (auto simp: sound_def mark_safe_def Sentence_mark_safe_eq intro: good_mark_safes)

lemma add_knowledge_sound:
  assumes snd: "sound M st" and safe: "cell \<notin> M"
    and cnt: "cnt = int (card (set (get_surroundings st cell) \<inter> M))"
  shows "\<exists>st'. add_knowledge cell cnt st = Some st' \<and> sound M st' \<and>
           height st' = height st \<and> width st' = width st \<and>
           moves_made st' = insert cell (moves_made st)"
proof -
  define st1 where "st1 = mark_safe cell (st\<lparr>moves_made := insert cell (moves_made st)\<rparr>)"
  define xs where "xs = get_surroundings st1 cell"
  have dims: "height st1 = height st" "width st1 = width st"
    "moves_made st1 = insert cell (moves_made st)"
    by (simp_all add: st1_def mark_safe_def)
  have xs: "xs = get_surroundings st cell"
    by (simp add: xs_def get_surroundings_def dims)
  have d: "distinct xs" unfolding xs_def by (rule surroundings_distinct)
  have "sound M (st\<lparr>moves_made := insert cell (moves_made st)\<rparr>)"
    using snd by (simp add: sound_def)
  then have s1: "sound M st1" unfolding st1_def using safe by (rule sound_mark_safe)
  have cnt': "cnt = int (card (set xs \<inter> M))" using cnt xs by simp
  obtain sent st2 where f: "fold (observe_step cnt) xs (\<lparr>cells = {}, count = cnt\<rparr>, st1) = (sent, st2)"
    by (cases "fold (observe_step cnt) xs (\<lparr>cells = {}, count = cnt\<rparr>, st1)")
  define st3 where "st3 = st2\<lparr>knowledge := knowledge st2 @ [sent]\<rparr>"
  have ak: "add_knowledge cell cnt st = deduce st3"
    unfolding add_knowledge_def Let_def st1_def [symmetric] xs_def [symmetric] f st3_def by simp
  have s3: "sound M st3 \<and> height st3 = height st \<and> width st3 = width st \<and>
      moves_made st3 = insert cell (moves_made st)"
  proof (cases "cnt = 0")
    case True
    define U where "U = {c \<in> set xs. c \<notin> safes st1 \<and> c \<notin> mines st1}"
    from f True have sent: "sent = \<lparr>cells = U, count = 0\<rparr>"
      and st2: "st2 = st1\<lparr>safes := safes st1 \<union> U\<rparr>"
      by (auto simp: fold_observe_zero U_def)
    have "card (set xs \<inter> M) = 0" using cnt' True by simp
    then have "set xs \<inter> M = {}" by simp
    then have UM: "U \<inter> M = {}" unfolding U_def by auto
    have "finite U" unfolding U_def by simp
    with UM have "good M sent" by (simp add: good_def sent)
    with s1 UM show ?thesis
      by (auto simp: st3_def st2 sound_def dims)
  next
    case False
    define U where "U = {c \<in> set xs. c \<notin> mines st1 \<and> c \<notin> safes st1}"
    from f False have sent: "sent = \<lparr>cells = U, count = cnt - int (length (filter (\<lambda>c. c \<in> mines st1) xs))\<rparr>"
      and st2: "st2 = st1"
      by (auto simp: fold_observe_nonzero U_def)
    have m: "mines st1 \<subseteq> M" and sf: "safes st1 \<inter> M = {}" using s1 by (simp_all add: sound_def)
    have len: "length (filter (\<lambda>c. c \<in> mines st1) xs) = card (set xs \<inter> mines st1)"
      using distinct_length_filter [OF d, of "\<lambda>c. c \<in> mines st1"]
      by (simp add: Int_commute Collect_mem_eq)
    have "U \<inter> M = (set xs \<inter> M) - (set xs \<inter> mines st1)"
      unfolding U_def using m sf by auto
    moreover have "card ((set xs \<inter> M) - (set xs \<inter> mines st1)) =
        card (set xs \<inter> M) - card (set xs \<inter> mines st1)"
      using m by (intro card_Diff_subset) auto
    moreover have "card (set xs \<inter> mines st1) \<le> card (set xs \<inter> M)"
      using m by (intro card_mono) auto
    ultimately have "int (card (U \<inter> M)) = cnt - int (length (filter (\<lambda>c. c \<in> mines st1) xs))"
      using cnt' len by simp
    moreover have "finite U" unfolding U_def by simp
    ultimately have "good M sent" by (simp add: good_def sent)
    with s1 show ?thesis
      by (auto simp: st3_def st2 sound_def dims)
  qed
  from deduce_terminates [of M st3] s3 show ?thesis unfolding ak by auto
qed

lemma agree_init: "agree g (init_ai (ms_height g) (ms_width g))"
  by (simp add: agree_def sound_def init_ai_def)

lemma agree_add_knowledge:
  assumes "agree g st" "in_bounds g c" "c \<notin> board g"
  shows "\<exists>st'. add_knowledge c (nearby_mines g c) st = Some st' \<and> agree g st' \<and>
           moves_made st' = insert c (moves_made st)"
proof -
  have snd: "sound (mine_cells g) st" and hw: "height st = ms_height g" "width st = ms_width g"
    using assms(1) by (simp_all add: agree_def)
  have safe: "c \<notin> mine_cells g" using assms(3) by (simp add: mine_cells_def)
  have "nearby_mines g c = int (card (set (get_surroundings st c) \<inter> mine_cells g))"
    using surroundings_mines [OF assms(2) hw] by (simp add: nearby_mines_card)
  from add_knowledge_sound [OF snd safe this] hw show ?thesis
    by (auto simp: agree_def)
qed

lemma play_agree:
  assumes "agree g st" "\<forall>c\<in>set cs. in_bounds g c \<and> c \<notin> board g"
  shows "\<exists>st'. play g cs st = Some st' \<and> agree g st' \<and> moves_made st' = moves_made st \<union> set cs"
  using assms
proof (induction cs arbitrary: st)
  case Nil
  then show ?case by simp
next
  case (Cons c cs)
  from Cons.prems have "in_bounds g c" "c \<notin> board g" by simp_all
  from agree_add_knowledge [OF Cons.prems(1) this]
  obtain st1 where st1: "add_knowledge c (nearby_mines g c) st = Some st1" "agree g st1"
    "moves_made st1 = insert c (moves_made st)" by blast
  from Cons.IH [OF st1(2)] Cons.prems(2)
  obtain st' where "play g cs st1 = Some st'" "agree g st'" "moves_made st' = moves_made st1 \<union> set cs"
    by auto
  with st1 show ?case by simp
qed

section \<open>Revealing a mine: the loop can run forever\<close>

text \<open>
  Two sentences without cells whose counts have opposite signs are never cleaned up and
  never marked; each sweep resolves them against each other and changes the counts
  from \<open>(a, b)\<close> to \<open>(b - a, 3a - 2b)\<close>, again of opposite signs, so the flag is set in
  every sweep.
\<close>

lemma outer_empty_pair:
  assumes "a \<noteq> b" "b - a \<noteq> a" "2 * a - b \<noteq> b - a"
  shows "outer 0 [\<lparr>cells = {}, count = a\<rparr>, \<lparr>cells = {}, count = b\<rparr>] ch =
    ([\<lparr>cells = {}, count = b - a\<rparr>, \<lparr>cells = {}, count = 3 * a - 2 * b\<rparr>], True)"
proof -
  let ?a = "\<lparr>cells = {}, count = a\<rparr> :: sentence"
  let ?b = "\<lparr>cells = {}, count = b\<rparr> :: sentence"
  let ?c = "\<lparr>cells = {}, count = b - a\<rparr> :: sentence"
  let ?d = "\<lparr>cells = {}, count = 2 * a - b\<rparr> :: sentence"
  let ?e = "\<lparr>cells = {}, count = 3 * a - 2 * b\<rparr> :: sentence"
  have a0: "inner ?a 0 [?a, ?b] ch = inner ?a (Suc 0) [?a, ?b] ch"
    by (subst inner.simps) simp
  have a1: "inner ?a (Suc 0) [?a, ?b] ch = inner ?a (Suc (Suc 0)) [?a, ?c] True"
    by (subst inner.simps) (use assms in simp)
  have a2: "inner ?a (Suc (Suc 0)) [?a, ?c] True = ([?a, ?c], True)"
    by (subst inner.simps) simp
  have c0: "inner ?c 0 [?a, ?c] True = inner ?c (Suc 0) [?c, ?d] True"
    by (subst inner.simps) (use assms in simp)
  have c1: "inner ?c (Suc 0) [?c, ?d] True = inner ?c (Suc (Suc 0)) [?c, ?e] True"
    by (subst inner.simps) (use assms in simp)
  have c2: "inner ?c (Suc (Suc 0)) [?c, ?e] True = ([?c, ?e], True)"
    by (subst inner.simps) simp
  have "outer 0 [?a, ?b] ch = outer (Suc 0) [?a, ?c] True"
    by (subst outer.simps) (simp add: a0 a1 a2)
  also have "\<dots> = outer (Suc (Suc 0)) [?c, ?e] True"
    by (subst outer.simps) (simp add: c0 c1 c2)
  also have "\<dots> = ([?c, ?e], True)"
    by (subst outer.simps) simp
  finally show ?thesis .
qed

lemma sweep_empty_pair:
  assumes k: "knowledge st = [\<lparr>cells = {}, count = a\<rparr>, \<lparr>cells = {}, count = b\<rparr>]"
    and s: "(a < 0 \<and> 0 < b) \<or> (b < 0 \<and> 0 < a)"
  shows "sweep st =
    (st\<lparr>knowledge := [\<lparr>cells = {}, count = b - a\<rparr>, \<lparr>cells = {}, count = 3 * a - 2 * b\<rparr>]\<rparr>, True)"
proof -
  have ne: "a \<noteq> 0" "b \<noteq> 0" "a \<noteq> b" "b - a \<noteq> a" "2 * a - b \<noteq> b - a"
    using s by auto
  have o: "outer 0 [\<lparr>cells = {}, count = a\<rparr>, \<lparr>cells = {}, count = b\<rparr>] False =
    ([\<lparr>cells = {}, count = b - a\<rparr>, \<lparr>cells = {}, count = 3 * a - 2 * b\<rparr>], True)"
    using ne(3-5) by (rule outer_empty_pair)
  show ?thesis
    unfolding sweep_unfold Let_def k
    using ne(1,2) by (simp add: known_safes_def known_mines_def mark_safes_def mark_mines_def o)
qed

lemma deduce_diverges:
  assumes "knowledge st = [\<lparr>cells = {}, count = a\<rparr>, \<lparr>cells = {}, count = b\<rparr>]"
    and "(a < 0 \<and> 0 < b) \<or> (b < 0 \<and> 0 < a)"
  shows "deduce st = None"
proof (rule ccontr)
  assume "deduce st \<noteq> None"
  then obtain y where y: "deduce st = Some y" by auto
  have "\<not> (\<exists>a b. knowledge st = [\<lparr>cells = {}, count = a\<rparr>, \<lparr>cells = {}, count = b\<rparr>] \<and>
      ((a < 0 \<and> 0 < b) \<or> (b < 0 \<and> 0 < a)))"
  proof (rule deduce.raw_induct [OF _ y])
    fix d st y
    assume IH: "\<And>x y. d x = Some y \<Longrightarrow>
        \<not> (\<exists>a b. knowledge x = [\<lparr>cells = {}, count = a\<rparr>, \<lparr>cells = {}, count = b\<rparr>] \<and>
          ((a < 0 \<and> 0 < b) \<or> (b < 0 \<and> 0 < a)))"
      and eq: "(case sweep st of (st', changed) \<Rightarrow> if changed then d st' else Some st') = Some y"
    show "\<not> (\<exists>a b. knowledge st = [\<lparr>cells = {}, count = a\<rparr>, \<lparr>cells = {}, count = b\<rparr>] \<and>
          ((a < 0 \<and> 0 < b) \<or> (b < 0 \<and> 0 < a)))"
    proof
      assume "\<exists>a b. knowledge st = [\<lparr>cells = {}, count = a\<rparr>, \<lparr>cells = {}, count = b\<rparr>] \<and>
          ((a < 0 \<and> 0 < b) \<or> (b < 0 \<and> 0 < a))"
      then obtain a b where k: "knowledge st = [\<lparr>cells = {}, count = a\<rparr>, \<lparr>cells = {}, count = b\<rparr>]"
        and s: "(a < 0 \<and> 0 < b) \<or> (b < 0 \<and> 0 < a)" by blast
      let ?st' = "st\<lparr>knowledge := [\<lparr>cells = {}, count = b - a\<rparr>, \<lparr>cells = {}, count = 3 * a - 2 * b\<rparr>]\<rparr>"
      from sweep_empty_pair [OF k s] eq have "d ?st' = Some y" by simp
      from IH [OF this] have "\<not> ((b - a < 0 \<and> 0 < 3 * a - 2 * b) \<or> (3 * a - 2 * b < 0 \<and> 0 < b - a))"
        by simp
      with s show False by auto
    qed
  qed
  with assms show False by blast
qed

lemma add_knowledge_unfold:
  "add_knowledge cell cnt st =
     deduce (case fold (observe_step cnt)
                    (get_surroundings (mark_safe cell (st\<lparr>moves_made := insert cell (moves_made st)\<rparr>)) cell)
                    (\<lparr>cells = {}, count = cnt\<rparr>,
                     mark_safe cell (st\<lparr>moves_made := insert cell (moves_made st)\<rparr>)) of
               (sent, st2) \<Rightarrow> st2\<lparr>knowledge := knowledge st2 @ [sent]\<rparr>)"
  by (simp add: add_knowledge_def Let_def split: prod.splits)

text \<open>
  C1, as stated, fails. On the 2 by 2 board whose only mine is \<open>(0, 0)\<close>, revealing
  \<open>(1, 1)\<close> with its true count 1 and then \<open>(0, 0)\<close>, which is not in \<open>moves_made\<close>, with
  its true count 0 meets the stated precondition, and the second call of \<open>add_knowledge\<close>
  does not return: after its first sweep the knowledge is \<open>{} = -1\<close> and \<open>{} = 3\<close>.
\<close>

theorem add_knowledge_diverges_on_mine:
  "nearby_mines \<lparr>ms_height = 2, ms_width = 2, board = {(0, 0)}\<rparr> (1, 1) = 1 \<and>
   add_knowledge (1, 1) 1 (init_ai 2 2) =
     Some \<lparr>height = 2, width = 2, moves_made = {(1, 1)}, mines = {}, safes = {(1, 1)},
           knowledge = [\<lparr>cells = {(0, 0), (0, 1), (1, 0)}, count = 1\<rparr>]\<rparr> \<and>
   (0, 0) \<notin> moves_made \<lparr>height = 2, width = 2, moves_made = {(1, 1)}, mines = {}, safes = {(1, 1)},
           knowledge = [\<lparr>cells = {(0, 0), (0, 1), (1, 0)}, count = 1\<rparr>]\<rparr> \<and>
   nearby_mines \<lparr>ms_height = 2, ms_width = 2, board = {(0, 0)}\<rparr> (0, 0) = 0 \<and>
   add_knowledge (0, 0) 0
     \<lparr>height = 2, width = 2, moves_made = {(1, 1)}, mines = {}, safes = {(1, 1)},
      knowledge = [\<lparr>cells = {(0, 0), (0, 1), (1, 0)}, count = 1\<rparr>]\<rparr> = None"
proof -
  let ?g = "\<lparr>ms_height = 2, ms_width = 2, board = {(0, 0)}\<rparr>"
  let ?s1 = "\<lparr>height = 2, width = 2, moves_made = {(1, 1)}, mines = {}, safes = {(1, 1)},
           knowledge = [\<lparr>cells = {(0, 0), (0, 1), (1, 0)}, count = 1\<rparr>]\<rparr>"
  let ?s3 = "\<lparr>height = 2, width = 2, moves_made = {(0, 0), (1, 1)}, mines = {},
           safes = {(0, 0), (0, 1), (1, 0), (1, 1)},
           knowledge = [\<lparr>cells = {(0, 1), (1, 0)}, count = 1\<rparr>, \<lparr>cells = {(0, 1), (1, 0)}, count = 0\<rparr>]\<rparr>"
  let ?s4 = "\<lparr>height = 2, width = 2, moves_made = {(0, 0), (1, 1)}, mines = {},
           safes = {(0, 0), (0, 1), (1, 0), (1, 1)},
           knowledge = [\<lparr>cells = {}, count = - 1\<rparr>, \<lparr>cells = {}, count = 3\<rparr>]\<rparr>"
  have n1: "nearby_mines ?g (1, 1) = 1" by code_simp
  have n2: "nearby_mines ?g (0, 0) = 0" by code_simp
  have a1: "add_knowledge (1, 1) 1 (init_ai 2 2) = Some ?s1" by code_simp
  have pre: "(case fold (observe_step 0)
                    (get_surroundings (mark_safe (0, 0) (?s1\<lparr>moves_made := insert (0, 0) (moves_made ?s1)\<rparr>)) (0, 0))
                    (\<lparr>cells = {}, count = 0\<rparr>,
                     mark_safe (0, 0) (?s1\<lparr>moves_made := insert (0, 0) (moves_made ?s1)\<rparr>)) of
               (sent, st2) \<Rightarrow> st2\<lparr>knowledge := knowledge st2 @ [sent]\<rparr>) = ?s3"
    by code_simp
  have sw: "sweep ?s3 = (?s4, True)" by code_simp
  have "add_knowledge (0, 0) 0 ?s1 = deduce ?s3"
    unfolding add_knowledge_unfold pre ..
  also have "\<dots> = deduce ?s4"
    by (subst deduce.simps) (simp add: sw)
  also have "\<dots> = None"
    by (rule deduce_diverges [of _ "- 1" 3]) simp_all
  finally have a2: "add_knowledge (0, 0) 0 ?s1 = None" .
  show ?thesis using n1 n2 a1 a2 by simp
qed

section \<open>Termination and soundness when safe cells are revealed\<close>

text \<open>
  C1, amended. Termination. Take any game (any height and width, any mines) and any
  sequence of observations of it in which every revealed cell is on the board, is not a
  mine and was not revealed before, each reporting the true number of neighbouring mines:
  the calls of \<open>add_knowledge\<close> for all but the last cell return, the last cell is not yet
  in \<open>moves_made\<close>, and the call of \<open>add_knowledge\<close> for it returns as well, so the loop
  \<open>while knowledge_changed\<close> inside it ends.
\<close>

theorem add_knowledge_terminates:
  assumes "legal g (cs @ [c])"
  shows "\<exists>st. play g cs (init_ai (ms_height g) (ms_width g)) = Some st \<and>
              c \<notin> moves_made st \<and>
              (\<exists>st'. add_knowledge c (nearby_mines g c) st = Some st')"
proof -
  from assms have l: "\<forall>c\<in>set cs. in_bounds g c \<and> c \<notin> board g" and c: "in_bounds g c" "c \<notin> board g"
    and nin: "c \<notin> set cs"
    by (auto simp: legal_def)
  from play_agree [OF agree_init l]
  obtain st where st: "play g cs (init_ai (ms_height g) (ms_width g)) = Some st" "agree g st"
    "moves_made st = moves_made (init_ai (ms_height g) (ms_width g)) \<union> set cs" by blast
  from st(3) nin have "c \<notin> moves_made st" by (simp add: init_ai_def)
  with st agree_add_knowledge [OF st(2) c] show ?thesis by blast
qed

theorem add_knowledge_terminates_witness:
  "legal \<lparr>ms_height = 2, ms_width = 2, board = {(1, 1)}\<rparr> ([(0, 0)] @ [(0, 1)]) \<and>
   (\<exists>st. play \<lparr>ms_height = 2, ms_width = 2, board = {(1, 1)}\<rparr> [(0, 0)] (init_ai 2 2) = Some st \<and>
         (0, 1) \<notin> moves_made st \<and>
         (\<exists>st'. add_knowledge (0, 1)
                 (nearby_mines \<lparr>ms_height = 2, ms_width = 2, board = {(1, 1)}\<rparr> (0, 1)) st = Some st'))"
proof -
  have l: "legal \<lparr>ms_height = 2, ms_width = 2, board = {(1, 1)}\<rparr> ([(0, 0)] @ [(0, 1)])"
    by (simp add: legal_def in_bounds_def)
  from add_knowledge_terminates [OF l] l show ?thesis by simp
qed

text \<open>
  C2, as stated, fails. On the 2 by 2 board whose only mine is \<open>(1, 1)\<close>, the three safe
  cells are revealed with their true count 1, which makes \<open>(1, 1)\<close> a known mine; then
  \<open>(1, 1)\<close> itself is revealed with its true count 0, and \<open>add_knowledge\<close> marks it safe:
  it is in both sets.
\<close>

theorem mine_revealed_is_marked_safe:
  "nearby_mines \<lparr>ms_height = 2, ms_width = 2, board = {(1, 1)}\<rparr> (0, 0) = 1 \<and>
   nearby_mines \<lparr>ms_height = 2, ms_width = 2, board = {(1, 1)}\<rparr> (0, 1) = 1 \<and>
   nearby_mines \<lparr>ms_height = 2, ms_width = 2, board = {(1, 1)}\<rparr> (1, 0) = 1 \<and>
   nearby_mines \<lparr>ms_height = 2, ms_width = 2, board = {(1, 1)}\<rparr> (1, 1) = 0 \<and>
   play \<lparr>ms_height = 2, ms_width = 2, board = {(1, 1)}\<rparr> [(0, 0), (0, 1), (1, 0), (1, 1)] (init_ai 2 2) =
     Some \<lparr>height = 2, width = 2, moves_made = {(0, 0), (0, 1), (1, 0), (1, 1)}, mines = {(1, 1)},
           safes = {(0, 0), (0, 1), (1, 0), (1, 1)}, knowledge = []\<rparr> \<and>
   mines \<lparr>height = 2, width = 2, moves_made = {(0, 0), (0, 1), (1, 0), (1, 1)}, mines = {(1, 1)},
           safes = {(0, 0), (0, 1), (1, 0), (1, 1)}, knowledge = []\<rparr> \<inter>
   safes \<lparr>height = 2, width = 2, moves_made = {(0, 0), (0, 1), (1, 0), (1, 1)}, mines = {(1, 1)},
           safes = {(0, 0), (0, 1), (1, 0), (1, 1)}, knowledge = []\<rparr> = {(1, 1)}"
  by code_simp

text \<open>
  C2, amended. Soundness. In every engine state reached from a fresh engine by a sequence
  of truthful observations of cells that are on the board and are not mines (a cell may
  be revealed more than once), no cell is both a known mine and a known safe.
\<close>

theorem mines_safes_disjoint:
  assumes "safe_reveals g cs" "play g cs (init_ai (ms_height g) (ms_width g)) = Some st"
  shows "mines st \<inter> safes st = {}"
proof -
  from assms(1) have l: "\<forall>c\<in>set cs. in_bounds g c \<and> c \<notin> board g" by (simp add: safe_reveals_def)
  from play_agree [OF agree_init l] assms(2) have "agree g st" by auto
  then show ?thesis by (auto simp: agree_def sound_def)
qed

theorem mines_safes_disjoint_witness:
  "safe_reveals \<lparr>ms_height = 2, ms_width = 2, board = {(1, 1)}\<rparr> [(0, 0), (0, 1), (0, 0), (1, 0)] \<and>
   play \<lparr>ms_height = 2, ms_width = 2, board = {(1, 1)}\<rparr> [(0, 0), (0, 1), (0, 0), (1, 0)] (init_ai 2 2) =
     Some \<lparr>height = 2, width = 2, moves_made = {(0, 0), (0, 1), (1, 0)}, mines = {(1, 1)},
           safes = {(0, 0), (0, 1), (1, 0)}, knowledge = []\<rparr> \<and>
   mines \<lparr>height = 2, width = 2, moves_made = {(0, 0), (0, 1), (1, 0)}, mines = {(1, 1)},
           safes = {(0, 0), (0, 1), (1, 0)}, knowledge = []\<rparr> \<inter>
   safes \<lparr>height = 2, width = 2, moves_made = {(0, 0), (0, 1), (1, 0)}, mines = {(1, 1)},
           safes = {(0, 0), (0, 1), (1, 0)}, knowledge = []\<rparr> = {}"
proof -
  let ?g = "\<lparr>ms_height = 2, ms_width = 2, board = {(1, 1)}\<rparr>"
  let ?s = "\<lparr>height = 2, width = 2, moves_made = {(0, 0), (0, 1), (1, 0)}, mines = {(1, 1)},
           safes = {(0, 0), (0, 1), (1, 0)}, knowledge = []\<rparr>"
  have l: "safe_reveals ?g [(0, 0), (0, 1), (0, 0), (1, 0)]"
    by (simp add: safe_reveals_def in_bounds_def)
  have p: "play ?g [(0, 0), (0, 1), (0, 0), (1, 0)] (init_ai (ms_height ?g) (ms_width ?g)) = Some ?s"
    by code_simp
  from mines_safes_disjoint [OF l p] l p show ?thesis by simp
qed

section \<open>Monotonicity\<close>

lemma grows_refl: "grows st st"
  by (simp add: grows_def)

lemma grows_trans: "grows a b \<Longrightarrow> grows b c \<Longrightarrow> grows a c"
  by (auto simp: grows_def)

lemma sweep_grows: "sweep st = (st', ch) \<Longrightarrow> grows st st'"
  unfolding sweep_unfold Let_def by (auto simp: grows_def split: prod.splits)

lemma deduce_grows:
  assumes "deduce st = Some st'"
  shows "grows st st'"
proof (rule deduce.raw_induct [OF _ assms])
  fix d st y
  assume IH: "\<And>x y. d x = Some y \<Longrightarrow> grows x y"
    and eq: "(case sweep st of (st', changed) \<Rightarrow> if changed then d st' else Some st') = Some y"
  obtain st1 ch where sw: "sweep st = (st1, ch)" by (cases "sweep st")
  show "grows st y"
  proof (cases ch)
    case True
    with eq sw have "d st1 = Some y" by simp
    then have "grows st1 y" by (rule IH)
    with sweep_grows [OF sw] show ?thesis by (rule grows_trans)
  next
    case False
    with eq sw have "y = st1" by simp
    with sweep_grows [OF sw] show ?thesis by simp
  qed
qed

lemma observe_grows:
  "fold (observe_step cnt) xs (sent, st) = (sent', st') \<Longrightarrow> grows st st'"
  by (cases "cnt = 0") (auto simp: fold_observe_zero fold_observe_nonzero grows_def)

text \<open>
  C7. Monotonicity. \<open>mark_mine\<close> and \<open>mark_safe\<close> only add to the sets \<open>moves_made\<close>,
  \<open>mines\<close> and \<open>safes\<close>, and so does every call of \<open>add_knowledge\<close> that returns: a cell
  in one of the sets before the call is in it after the call. This holds for every engine
  state, so for every sequence of calls.
\<close>

theorem sets_only_grow:
  "grows st (mark_mine c st) \<and> grows st (mark_safe c st) \<and>
   (add_knowledge cell cnt st = Some st' \<longrightarrow> grows st st')"
proof (intro conjI impI)
  show "grows st (mark_mine c st)" by (auto simp: grows_def mark_mine_def)
  show "grows st (mark_safe c st)" by (auto simp: grows_def mark_safe_def)
  assume ak: "add_knowledge cell cnt st = Some st'"
  define st1 where "st1 = mark_safe cell (st\<lparr>moves_made := insert cell (moves_made st)\<rparr>)"
  obtain sent st2 where f:
    "fold (observe_step cnt) (get_surroundings st1 cell) (\<lparr>cells = {}, count = cnt\<rparr>, st1) = (sent, st2)"
    by (cases "fold (observe_step cnt) (get_surroundings st1 cell) (\<lparr>cells = {}, count = cnt\<rparr>, st1)")
  from ak have d: "deduce (st2\<lparr>knowledge := knowledge st2 @ [sent]\<rparr>) = Some st'"
    unfolding add_knowledge_def Let_def st1_def [symmetric] f by simp
  have "grows st st1" by (auto simp: grows_def st1_def mark_safe_def)
  moreover have "grows st1 st2" using f by (rule observe_grows)
  moreover have "grows st2 (st2\<lparr>knowledge := knowledge st2 @ [sent]\<rparr>)" by (simp add: grows_def)
  moreover have "grows (st2\<lparr>knowledge := knowledge st2 @ [sent]\<rparr>) st'" using d by (rule deduce_grows)
  ultimately show "grows st st'" by (blast intro: grows_trans)
qed

theorem sets_only_grow_witness:
  "add_knowledge (0, 1) 1
     \<lparr>height = 2, width = 2, moves_made = {(0, 0)}, mines = {}, safes = {(0, 0)},
      knowledge = [\<lparr>cells = {(0, 1), (1, 0), (1, 1)}, count = 1\<rparr>]\<rparr> =
     Some \<lparr>height = 2, width = 2, moves_made = {(0, 0), (0, 1)}, mines = {},
           safes = {(0, 0), (0, 1)},
           knowledge = [\<lparr>cells = {(1, 0), (1, 1)}, count = 1\<rparr>, \<lparr>cells = {(1, 0), (1, 1)}, count = 1\<rparr>]\<rparr> \<and>
   grows
     \<lparr>height = 2, width = 2, moves_made = {(0, 0)}, mines = {}, safes = {(0, 0)},
      knowledge = [\<lparr>cells = {(0, 1), (1, 0), (1, 1)}, count = 1\<rparr>]\<rparr>
     \<lparr>height = 2, width = 2, moves_made = {(0, 0), (0, 1)}, mines = {},
      safes = {(0, 0), (0, 1)},
      knowledge = [\<lparr>cells = {(1, 0), (1, 1)}, count = 1\<rparr>, \<lparr>cells = {(1, 0), (1, 1)}, count = 1\<rparr>]\<rparr>"
proof -
  let ?s1 = "\<lparr>height = 2, width = 2, moves_made = {(0, 0)}, mines = {}, safes = {(0, 0)},
      knowledge = [\<lparr>cells = {(0, 1), (1, 0), (1, 1)}, count = 1\<rparr>]\<rparr>"
  let ?s2 = "\<lparr>height = 2, width = 2, moves_made = {(0, 0), (0, 1)}, mines = {},
      safes = {(0, 0), (0, 1)},
      knowledge = [\<lparr>cells = {(1, 0), (1, 1)}, count = 1\<rparr>, \<lparr>cells = {(1, 0), (1, 1)}, count = 1\<rparr>]\<rparr>"
  have ak: "add_knowledge (0, 1) 1 ?s1 = Some ?s2" by code_simp
  with sets_only_grow [of ?s1 "(0, 0)" "(0, 1)" 1 ?s2] show ?thesis by simp
qed

section \<open>Subset resolution\<close>















end
